theory Spec2Isabelle
  imports Main
begin

section \<open>The LimitTransfer addon (crates/icp-cli/tests/assets/limit\_transfer.py)\<close>

text \<open>
  The addon is a class with four fields and three methods. \<^verbatim>\<open>__init__\<close> reads the
  limit from the environment, \<^verbatim>\<open>request\<close> is a coroutine run once for every
  arriving flow, \<^verbatim>\<open>response\<close> is an ordinary method run when a flow's response has
  been seen. Python integers are unbounded, so the two counters are of type \<open>int\<close>.

  A flow is named by the number of \<^verbatim>\<open>request\<close> calls made before its own (the first
  flow is 0). The \<^verbatim>\<open>asyncio.Event\<close> that a call of \<^verbatim>\<open>request\<close> creates at line 38
  is a fresh object awaited by that call alone, so it is named by the flow too:
  the list \<open>waiters\<close> holds the events in the order of \<^verbatim>\<open>append\<close>.
\<close>

type_synonym flow = nat

record LimitTransfer =
  requests_allowed :: int
  requests_completed :: int
  in_flight :: bool
  waiters :: "flow list"

subsection \<open>Construction: \<^verbatim>\<open>int(os.environ.get("LIMIT_REQUESTS", 2))\<close>\<close>

text \<open>
  The builtin \<^verbatim>\<open>int\<close> applied to ASCII text: white space (tab, line feed, vertical
  tab, form feed, carriage return, space) is dropped at both ends, one sign may
  follow, then decimal digits in groups separated by single underscores. Anything
  else raises \<^verbatim>\<open>ValueError\<close>, as does a text of more than 4300 digits (the
  interpreter's default bound on the conversion). Text outside ASCII is not covered:
  the model refuses it, Python accepts the decimal digits of other scripts.
\<close>

datatype py_error = ValueError

definition py_isspace :: "char \<Rightarrow> bool" where
  "py_isspace c = (c \<in> set [CHR 0x09, CHR 0x0A, CHR 0x0B, CHR 0x0C, CHR 0x0D, CHR 0x20])"

definition py_isdigit :: "char \<Rightarrow> bool" where
  "py_isdigit c = (48 \<le> (of_char c :: nat) \<and> (of_char c :: nat) \<le> 57)"

definition digit_value :: "char \<Rightarrow> int" where
  "digit_value c = int (of_char c) - 48"

fun digit_groups :: "string \<Rightarrow> bool" where
  "digit_groups [] = False"
| "digit_groups [c] = py_isdigit c"
| "digit_groups (c # d # cs) =
     (py_isdigit c \<and> (if d = CHR ''_'' then digit_groups cs else digit_groups (d # cs)))"

definition py_strip :: "string \<Rightarrow> string" where
  "py_strip s = rev (dropWhile py_isspace (rev (dropWhile py_isspace s)))"

definition py_int :: "string \<Rightarrow> py_error + int" where
  "py_int s =
     (let t = py_strip s;
          body = (case t of [] \<Rightarrow> [] | c # r \<Rightarrow> if c = CHR ''-'' \<or> c = CHR ''+'' then r else t);
          ds = filter (\<lambda>c. c \<noteq> CHR ''_'') body;
          v = foldl (\<lambda>a c. 10 * a + digit_value c) 0 ds
      in if \<not> digit_groups body \<or> 4300 < length ds then Inl ValueError
         else Inr (case t of [] \<Rightarrow> v | c # r \<Rightarrow> if c = CHR ''-'' then - v else v))"

text \<open>
  \<^verbatim>\<open>__init__\<close> (lines 16 to 21). The environment is a map from names to texts; a
  missing variable gives the default 2, which \<^verbatim>\<open>int\<close> returns as it is. The
  converted number is stored with no further check.
\<close>

definition fresh :: "int \<Rightarrow> LimitTransfer" where
  "fresh n = \<lparr>requests_allowed = n, requests_completed = 0, in_flight = False, waiters = []\<rparr>"

definition LimitTransfer_init :: "(string \<rightharpoonup> string) \<Rightarrow> py_error + LimitTransfer" where
  "LimitTransfer_init environ =
     (case (case environ ''LIMIT_REQUESTS'' of None \<Rightarrow> Inr 2 | Some txt \<Rightarrow> py_int txt) of
        Inl e \<Rightarrow> Inl e
      | Inr n \<Rightarrow> Inr (fresh n))"

subsection \<open>The coroutine \<^verbatim>\<open>request\<close> and the method \<^verbatim>\<open>response\<close>\<close>

text \<open>
  \<^verbatim>\<open>request\<close> has one suspension point, \<^verbatim>\<open>await event.wait()\<close> at line 41, so it
  is two pieces of straight-line code: \<open>request\<close> runs from the call to the first
  return or to the suspension, \<open>request_after_wait\<close> runs from the resumption to
  the end. A piece returns what became of the flow and the updated object.
  \<^verbatim>\<open>flow.kill()\<close> is the verdict \<open>Killed\<close>, tagged with the log line that goes with
  it; reaching line 50 is the verdict \<open>Allowed\<close>.
\<close>

datatype kill_reason = LimitReached | WouldExceedLimit | LimitReachedAfterWait

datatype verdict = Killed kill_reason | Stalled | Allowed

definition request :: "LimitTransfer \<Rightarrow> flow \<Rightarrow> verdict \<times> LimitTransfer" where
  "request self flow =
     (if requests_completed self \<ge> requests_allowed self then (Killed LimitReached, self)
      else if in_flight self then
        (if requests_completed self + int (length (waiters self)) + 1 \<ge> requests_allowed self
         then (Killed WouldExceedLimit, self)
         else (Stalled, self\<lparr>waiters := waiters self @ [flow]\<rparr>))
      else (Allowed, self\<lparr>in_flight := True\<rparr>))"

definition request_after_wait :: "LimitTransfer \<Rightarrow> verdict \<times> LimitTransfer" where
  "request_after_wait self =
     (if requests_completed self \<ge> requests_allowed self then (Killed LimitReachedAfterWait, self)
      else (Allowed, self\<lparr>in_flight := True\<rparr>))"

text \<open>
  \<^verbatim>\<open>response\<close> (lines 52 to 60) ignores its flow argument. It returns the event it
  has set, if any, and the updated object. \<^verbatim>\<open>pop(0)\<close> is guarded by the test that
  the list is not empty, so it cannot raise.
\<close>

definition response :: "LimitTransfer \<Rightarrow> flow option \<times> LimitTransfer" where
  "response self =
     (let self1 = self\<lparr>requests_completed := requests_completed self + 1, in_flight := False\<rparr>
      in case waiters self1 of
           [] \<Rightarrow> (None, self1)
         | waiter # rest \<Rightarrow>
             if requests_completed self1 < requests_allowed self1
             then (Some waiter, self1\<lparr>waiters := rest\<rparr>)
             else (None, self1))"

subsection \<open>The proxy: the addon under the event loop\<close>

text \<open>
  asyncio runs one task at a time and switches only at an \<^verbatim>\<open>await\<close> that has to
  wait. \<^verbatim>\<open>Event.set()\<close> is an ordinary call: it marks the event and schedules the
  task that waits for it, which the loop resumes later, after whatever it had
  scheduled before. \<^verbatim>\<open>response\<close> therefore returns before the waiter it has
  signalled runs, and the hooks of other flows may run in between. The proxy makes
  three kinds of step:
  \<^item> \<open>Request\<close>: a new flow arrives and \<^verbatim>\<open>request\<close> runs to its first return or
    to the suspension;
  \<^item> \<open>Response f\<close>: \<^verbatim>\<open>response\<close> runs for flow \<open>f\<close>;
  \<^item> \<open>Wakeup\<close>: the loop resumes the task scheduled first among those whose event
    has been set (nothing happens when there is none).
  The field \<open>ready\<close> is the loop's queue of scheduled wake-ups. The other lists
  record, in order, what has happened: the flows that stalled, the events set, the
  tasks resumed, the flows allowed and killed, and the flows \<^verbatim>\<open>response\<close> was
  called for.
\<close>

datatype action = Request | Response flow | Wakeup

record proxy =
  gate :: LimitTransfer
  flows :: nat
  ready :: "flow list"
  stalled :: "flow list"
  signalled :: "flow list"
  resumed :: "flow list"
  allowed :: "flow list"
  killed :: "flow list"
  responded :: "flow list"

definition boot :: "LimitTransfer \<Rightarrow> proxy" where
  "boot g = \<lparr>gate = g, flows = 0, ready = [], stalled = [], signalled = [], resumed = [],
             allowed = [], killed = [], responded = []\<rparr>"

definition settle :: "flow \<Rightarrow> verdict \<Rightarrow> proxy \<Rightarrow> proxy" where
  "settle f v p =
     (case v of
        Killed r \<Rightarrow> p\<lparr>killed := killed p @ [f]\<rparr>
      | Stalled \<Rightarrow> p\<lparr>stalled := stalled p @ [f]\<rparr>
      | Allowed \<Rightarrow> p\<lparr>allowed := allowed p @ [f]\<rparr>)"

fun step :: "proxy \<Rightarrow> action \<Rightarrow> proxy" where
  "step p Request =
     (let f = flows p; (v, g) = request (gate p) f
      in settle f v (p\<lparr>gate := g, flows := Suc f\<rparr>))"
| "step p (Response f) =
     (let (w, g) = response (gate p); p1 = p\<lparr>gate := g, responded := responded p @ [f]\<rparr>
      in case w of
           None \<Rightarrow> p1
         | Some e \<Rightarrow> p1\<lparr>ready := ready p @ [e], signalled := signalled p @ [e]\<rparr>)"
| "step p Wakeup =
     (case ready p of
        [] \<Rightarrow> p
      | f # fs \<Rightarrow>
          let (v, g) = request_after_wait (gate p)
          in settle f v (p\<lparr>gate := g, ready := fs, resumed := resumed p @ [f]\<rparr>))"

definition run :: "proxy \<Rightarrow> action list \<Rightarrow> proxy" where
  "run p as = foldl step p as"

text \<open>
  The flows between admission and completion, and the caller's side of the
  contract: \<^verbatim>\<open>response\<close> is called only for a flow that was allowed, and once.
\<close>

definition outstanding :: "proxy \<Rightarrow> flow list" where
  "outstanding p = filter (\<lambda>f. f \<notin> set (responded p)) (allowed p)"

fun permitted :: "proxy \<Rightarrow> action \<Rightarrow> bool" where
  "permitted p (Response f) = (f \<in> set (allowed p) \<and> f \<notin> set (responded p))"
| "permitted p Request = True"
| "permitted p Wakeup = True"

fun contract :: "proxy \<Rightarrow> action list \<Rightarrow> bool" where
  "contract p [] = True"
| "contract p (a # as) = (permitted p a \<and> contract (step p a) as)"

text \<open>
  What the lists of the proxy record about each other in every state that can be
  reached: the flows that stalled are those signalled so far followed by those still
  in \<open>waiters\<close>, in this order; the signalled are those resumed followed by those
  still in \<open>ready\<close>; no flow stalls twice; every flow named is one that has arrived;
  a flow that stalled has a verdict only once it has been resumed.
\<close>

definition tidy :: "proxy \<Rightarrow> bool" where
  "tidy p \<longleftrightarrow>
     stalled p = signalled p @ waiters (gate p) \<and>
     signalled p = resumed p @ ready p \<and>
     distinct (stalled p) \<and>
     list_all (\<lambda>f. f < flows p) (stalled p @ allowed p @ killed p) \<and>
     list_all (\<lambda>f. f \<in> set (stalled p) \<longrightarrow> f \<in> set (resumed p)) (allowed p @ killed p)"

text \<open>
  \<open>precedes a b xs\<close>: \<open>b\<close> occurs in \<open>xs\<close> after the first occurrence of \<open>a\<close>.
\<close>

definition precedes :: "'a \<Rightarrow> 'a \<Rightarrow> 'a list \<Rightarrow> bool" where
  "precedes a b xs \<longleftrightarrow> a \<in> set xs \<and> b \<in> set (tl (dropWhile (\<lambda>x. x \<noteq> a) xs))"

text \<open>
  The queue never outgrows the limit: the completed requests and the waiters
  together stay below it for as long as anyone waits.
\<close>

definition queue_fits :: "proxy \<Rightarrow> bool" where
  "queue_fits p \<longleftrightarrow>
     0 \<le> requests_completed (gate p) \<and>
     (waiters (gate p) = [] \<or>
      requests_completed (gate p) + int (length (waiters (gate p))) < requests_allowed (gate p))"

text \<open>
  A state in which the limit has been reached while flow 1 still waits. It has the
  shape of a state of the proxy but cannot be reached from a new gate
  (\<open>no_waiter_left_at_limit\<close> below).
\<close>

definition stranded :: proxy where
  "stranded = \<lparr>gate = \<lparr>requests_allowed = 1, requests_completed = 1, in_flight = False, waiters = [1]\<rparr>,
     flows = 2, ready = [], stalled = [1], signalled = [], resumed = [], allowed = [0],
     killed = [], responded = [0]\<rparr>"

text \<open>
  A schedule is prompt when a waiter whose event has been set is resumed before
  anything else happens: as long as a wake-up is pending, the next step is
  \<open>Wakeup\<close>. \<open>serial\<close> is what holds of the proxy along prompt schedules that
  keep the caller's contract.
\<close>

fun prompt :: "proxy \<Rightarrow> action list \<Rightarrow> bool" where
  "prompt p [] = True"
| "prompt p (a # as) = ((ready p = [] \<or> a = Wakeup) \<and> prompt (step p a) as)"

definition serial :: "proxy \<Rightarrow> bool" where
  "serial p \<longleftrightarrow>
     length (ready p) \<le> 1 \<and>
     (ready p = [] \<or> \<not> in_flight (gate p)) \<and>
     (\<not> in_flight (gate p) \<or> requests_completed (gate p) < requests_allowed (gate p)) \<and>
     (requests_completed (gate p) = 0 \<or> requests_completed (gate p) \<le> requests_allowed (gate p)) \<and>
     set (responded p) \<subseteq> set (allowed p) \<and>
     length (outstanding p) = (if in_flight (gate p) then 1 else 0) \<and>
     int (length (allowed p)) = requests_completed (gate p) + int (length (outstanding p))"

text \<open>
  The schedule used below to exhibit the late wake-up, with limit 2: flow 0 is
  allowed, flow 1 stalls, flow 0 completes and the event of flow 1 is set; flow 2
  arrives before the loop resumes flow 1 and is allowed; flow 1 is then resumed and
  allowed as well; both complete.
\<close>

definition late_wakeup :: "action list" where
  "late_wakeup = [Request, Request, Response 0, Request, Wakeup, Response 2, Response 1]"

section \<open>Properties\<close>

lemmas gate_defs = request_def request_after_wait_def response_def settle_def Let_def

lemmas eval_defs = run_def boot_def fresh_def gate_defs outstanding_def late_wakeup_def

subsection \<open>The steps of the proxy, case by case\<close>

lemma tidy_boot: "tidy (boot (fresh n))"
  by (simp add: tidy_def boot_def fresh_def)

lemma step_Request_cases:
  obtains
    (kill) "step p Request = p\<lparr>flows := Suc (flows p), killed := killed p @ [flows p]\<rparr>"
      "requests_completed (gate p) \<ge> requests_allowed (gate p) \<or>
       in_flight (gate p) \<and>
       requests_completed (gate p) + int (length (waiters (gate p))) + 1 \<ge> requests_allowed (gate p)"
  | (stall) "step p Request =
       p\<lparr>gate := (gate p)\<lparr>waiters := waiters (gate p) @ [flows p]\<rparr>,
         flows := Suc (flows p), stalled := stalled p @ [flows p]\<rparr>"
      "in_flight (gate p)"
      "requests_completed (gate p) + int (length (waiters (gate p))) + 1 < requests_allowed (gate p)"
  | (allow) "step p Request =
       p\<lparr>gate := (gate p)\<lparr>in_flight := True\<rparr>,
         flows := Suc (flows p), allowed := allowed p @ [flows p]\<rparr>"
      "\<not> in_flight (gate p)" "requests_completed (gate p) < requests_allowed (gate p)"
  by (cases "requests_completed (gate p) \<ge> requests_allowed (gate p)";
      cases "in_flight (gate p)";
      cases "requests_completed (gate p) + int (length (waiters (gate p))) + 1 \<ge> requests_allowed (gate p)")
     (simp_all add: gate_defs)

lemma step_Response_cases:
  obtains
    (signal) w ws where "waiters (gate p) = w # ws"
      "requests_completed (gate p) + 1 < requests_allowed (gate p)"
      "step p (Response f) =
         p\<lparr>gate := (gate p)\<lparr>requests_completed := requests_completed (gate p) + 1,
                              in_flight := False, waiters := ws\<rparr>,
           ready := ready p @ [w], signalled := signalled p @ [w],
           responded := responded p @ [f]\<rparr>"
  | (quiet) "waiters (gate p) = [] \<or> requests_completed (gate p) + 1 \<ge> requests_allowed (gate p)"
      "step p (Response f) =
         p\<lparr>gate := (gate p)\<lparr>requests_completed := requests_completed (gate p) + 1,
                              in_flight := False\<rparr>,
           responded := responded p @ [f]\<rparr>"
  by (cases "waiters (gate p)";
      cases "requests_completed (gate p) + 1 < requests_allowed (gate p)")
     (simp_all add: gate_defs)

lemma step_Wakeup_cases:
  obtains
    (idle) "ready p = []" "step p Wakeup = p"
  | (kill) f fs where "ready p = f # fs"
      "requests_completed (gate p) \<ge> requests_allowed (gate p)"
      "step p Wakeup = p\<lparr>ready := fs, resumed := resumed p @ [f], killed := killed p @ [f]\<rparr>"
  | (allow) f fs where "ready p = f # fs"
      "requests_completed (gate p) < requests_allowed (gate p)"
      "step p Wakeup =
         p\<lparr>gate := (gate p)\<lparr>in_flight := True\<rparr>, ready := fs,
           resumed := resumed p @ [f], allowed := allowed p @ [f]\<rparr>"
  by (cases "ready p"; cases "requests_completed (gate p) \<ge> requests_allowed (gate p)")
     (simp_all add: gate_defs)

lemma tidyI:
  assumes "stalled p = signalled p @ waiters (gate p)"
    and "signalled p = resumed p @ ready p"
    and "distinct (stalled p)"
    and "\<And>f. f \<in> set (stalled p) \<union> set (allowed p) \<union> set (killed p) \<Longrightarrow> f < flows p"
    and "\<And>f. f \<in> set (allowed p) \<union> set (killed p) \<Longrightarrow> f \<in> set (stalled p) \<Longrightarrow> f \<in> set (resumed p)"
  shows "tidy p"
  using assms unfolding tidy_def list_all_iff by auto

lemma tidyD:
  assumes "tidy p"
  shows "stalled p = signalled p @ waiters (gate p)"
    and "signalled p = resumed p @ ready p"
    and "distinct (stalled p)"
    and "\<And>f. f \<in> set (stalled p) \<union> set (allowed p) \<union> set (killed p) \<Longrightarrow> f < flows p"
    and "\<And>f. f \<in> set (allowed p) \<union> set (killed p) \<Longrightarrow> f \<in> set (stalled p) \<Longrightarrow> f \<in> set (resumed p)"
  using assms unfolding tidy_def list_all_iff by auto

lemma tidy_step_Request:
  assumes "tidy p"
  shows "tidy (step p Request)"
proof -
  note t = tidyD [OF assms]
  have new: "flows p \<notin> set (stalled p)" "flows p \<notin> set (allowed p)" "flows p \<notin> set (killed p)"
    using t(4) [of "flows p"] by auto
  have old: "\<And>f. f \<in> set (stalled p) \<union> set (allowed p) \<union> set (killed p) \<Longrightarrow> f < Suc (flows p)"
    using t(4) by (simp add: less_Suc_eq)
  show ?thesis
  proof (cases rule: step_Request_cases [of p])
    case kill
    show ?thesis
      unfolding kill(1) by (rule tidyI) (use t(1,2,3,5) new old in auto)
  next
    case stall
    show ?thesis
      unfolding stall(1) by (rule tidyI) (use t(1,2,3,5) new old in auto)
  next
    case allow
    show ?thesis
      unfolding allow(1) by (rule tidyI) (use t(1,2,3,5) new old in auto)
  qed
qed

lemma tidy_step_Response:
  assumes "tidy p"
  shows "tidy (step p (Response f))"
proof -
  note t = tidyD [OF assms]
  show ?thesis
  proof (cases rule: step_Response_cases [of p f])
    case (signal w ws)
    show ?thesis
      unfolding signal(3) by (rule tidyI) (use t signal(1) in auto)
  next
    case quiet
    show ?thesis
      unfolding quiet(2) by (rule tidyI) (use t in auto)
  qed
qed

lemma tidy_step_Wakeup:
  assumes "tidy p"
  shows "tidy (step p Wakeup)"
proof -
  note t = tidyD [OF assms]
  show ?thesis
  proof (cases rule: step_Wakeup_cases [of p])
    case idle
    then show ?thesis using assms by simp
  next
    case (kill f fs)
    then have "f \<in> set (stalled p)" using t(1,2) by simp
    then have "f < flows p" using t(4) by blast
    then show ?thesis
      unfolding kill(3) by (intro tidyI) (use t kill(1) in auto)
  next
    case (allow f fs)
    then have "f \<in> set (stalled p)" using t(1,2) by simp
    then have "f < flows p" using t(4) by blast
    then show ?thesis
      unfolding allow(3) by (intro tidyI) (use t allow(1) in auto)
  qed
qed

lemma tidy_step: "tidy p \<Longrightarrow> tidy (step p a)"
  by (cases a) (simp_all only: tidy_step_Request tidy_step_Response tidy_step_Wakeup)

lemma tidy_run: "tidy p \<Longrightarrow> tidy (run p as)"
  unfolding run_def by (induction as arbitrary: p) (simp_all add: tidy_step)


lemma precedes_prefix:
  assumes "distinct (ys @ zs)" and "precedes a b (ys @ zs)" and "b \<in> set ys"
  shows "precedes a b ys"
proof (cases "a \<in> set ys")
  case True
  then have ne: "dropWhile (\<lambda>x. x \<noteq> a) ys \<noteq> []" by simp
  have "dropWhile (\<lambda>x. x \<noteq> a) (ys @ zs) = dropWhile (\<lambda>x. x \<noteq> a) ys @ zs"
    using True by (simp add: dropWhile_append1)
  then have "b \<in> set (tl (dropWhile (\<lambda>x. x \<noteq> a) ys)) \<or> b \<in> set zs"
    using assms(2) ne by (auto simp: precedes_def)
  moreover have "b \<notin> set zs" using assms(1,3) by auto
  ultimately show ?thesis using True by (simp add: precedes_def)
next
  case False
  have "dropWhile (\<lambda>x. x \<noteq> a) (ys @ zs) = dropWhile (\<lambda>x. x \<noteq> a) zs"
    by (rule dropWhile_append2) (use False in auto)
  then have "b \<in> set (tl (dropWhile (\<lambda>x. x \<noteq> a) zs))"
    using assms(2) by (simp add: precedes_def)
  then have "b \<in> set zs"
    by (metis list.sel(2) list.set_sel(2) set_dropWhileD)
  then show ?thesis using assms(1,3) by auto
qed

lemma queue_fits_boot: "queue_fits (boot (fresh n))"
  by (simp add: queue_fits_def boot_def fresh_def)

lemma queue_fits_step: "queue_fits p \<Longrightarrow> queue_fits (step p a)"
proof (cases a)
  case Request
  assume "queue_fits p" then show ?thesis
    unfolding Request by (cases rule: step_Request_cases [of p]) (auto simp: queue_fits_def)
next
  case (Response f)
  have len: "waiters (gate p) = [] \<or> 1 \<le> int (length (waiters (gate p)))"
    by (cases "waiters (gate p)") simp_all
  assume "queue_fits p" then show ?thesis
    unfolding Response using len
    by (cases rule: step_Response_cases [of p f]) (auto simp: queue_fits_def)
next
  case Wakeup
  assume "queue_fits p" then show ?thesis
    unfolding Wakeup by (cases rule: step_Wakeup_cases [of p]) (auto simp: queue_fits_def)
qed

lemma queue_fits_run: "queue_fits p \<Longrightarrow> queue_fits (run p as)"
  unfolding run_def by (induction as arbitrary: p) (simp_all add: queue_fits_step)

lemma limit_constant_step: "requests_allowed (gate (step p a)) = requests_allowed (gate p)"
proof (cases a)
  case Request
  show ?thesis unfolding Request by (cases rule: step_Request_cases [of p]) simp_all
next
  case (Response f)
  show ?thesis unfolding Response by (cases rule: step_Response_cases [of p f]) simp_all
next
  case Wakeup
  show ?thesis unfolding Wakeup by (cases rule: step_Wakeup_cases [of p]) simp_all
qed

lemma limit_constant_run: "requests_allowed (gate (run p as)) = requests_allowed (gate p)"
  unfolding run_def by (induction as arbitrary: p) (simp_all add: limit_constant_step)

lemma at_limit_step:
  assumes "requests_allowed (gate p) \<le> requests_completed (gate p)"
  shows "signalled (step p a) = signalled p \<and> waiters (gate (step p a)) = waiters (gate p) \<and>
         requests_allowed (gate (step p a)) \<le> requests_completed (gate (step p a))"
proof (cases a)
  case Request
  show ?thesis unfolding Request using assms by (cases rule: step_Request_cases [of p]) simp_all
next
  case (Response f)
  show ?thesis unfolding Response using assms by (cases rule: step_Response_cases [of p f]) simp_all
next
  case Wakeup
  show ?thesis unfolding Wakeup using assms by (cases rule: step_Wakeup_cases [of p]) simp_all
qed

lemma at_limit_run:
  "requests_allowed (gate p) \<le> requests_completed (gate p) \<Longrightarrow>
     signalled (run p as) = signalled p \<and> waiters (gate (run p as)) = waiters (gate p) \<and>
     requests_allowed (gate (run p as)) \<le> requests_completed (gate (run p as))"
proof (induction as arbitrary: p)
  case Nil
  then show ?case by (simp add: run_def)
next
  case (Cons a as)
  have "run p (a # as) = run (step p a) as" by (simp add: run_def)
  then show ?case using Cons.IH [of "step p a"] at_limit_step [OF Cons.prems, of a] by simp
qed

lemma waiting_unsettled:
  assumes "tidy p" and "w \<in> set (waiters (gate p))"
  shows "w \<notin> set (resumed p) \<and> w \<notin> set (allowed p) \<and> w \<notin> set (killed p)"
proof -
  note t = tidyD [OF assms(1)]
  have d: "distinct (resumed p @ ready p @ waiters (gate p))" using t(1,2,3) by simp
  then have r: "w \<notin> set (resumed p)" using assms(2) by auto
  have "w \<in> set (stalled p)" using t(1) assms(2) by simp
  then show ?thesis using r t(5) [of w] by blast
qed

lemma no_waiter_left_at_limit:
  assumes "requests_allowed (gate (run (boot (fresh n)) as)) \<le> requests_completed (gate (run (boot (fresh n)) as))"
  shows "waiters (gate (run (boot (fresh n)) as)) = []"
proof -
  have "queue_fits (run (boot (fresh n)) as)" by (rule queue_fits_run) (rule queue_fits_boot)
  then show ?thesis using assms by (auto simp: queue_fits_def)
qed

lemma waiters_within_limit:
  assumes "0 \<le> n"
  shows "int (length (waiters (gate (run (boot (fresh n)) as)))) \<le> n"
proof -
  have "queue_fits (run (boot (fresh n)) as)" by (rule queue_fits_run) (rule queue_fits_boot)
  moreover have "requests_allowed (gate (run (boot (fresh n)) as)) = n"
    by (simp add: limit_constant_run boot_def fresh_def)
  ultimately show ?thesis using assms by (auto simp: queue_fits_def)
qed

subsection \<open>Single steps\<close>

text \<open>
  C4. An arrival that finds \<open>requests_completed < requests_allowed\<close> and
  \<open>in_flight\<close> set is killed when \<open>requests_completed + len(waiters) + 1\<close> reaches
  the limit, and then nothing but the record of the kill changes (\<open>waiters\<close> is as
  before); otherwise its event is appended at the tail of \<open>waiters\<close> and the flow
  stalls, neither allowed nor killed. With limit 2 and three arrivals in a row, the
  first is allowed, the second waits, and the third computes 0 + 1 + 1 = 2 and is
  killed without being queued.
\<close>

theorem request_while_in_flight:
  "(requests_completed (gate p) < requests_allowed (gate p) \<and> in_flight (gate p) \<longrightarrow>
      (if requests_completed (gate p) + int (length (waiters (gate p))) + 1 \<ge> requests_allowed (gate p)
       then step p Request = p\<lparr>flows := Suc (flows p), killed := killed p @ [flows p]\<rparr>
       else step p Request =
              p\<lparr>gate := (gate p)\<lparr>waiters := waiters (gate p) @ [flows p]\<rparr>,
                flows := Suc (flows p), stalled := stalled p @ [flows p]\<rparr>))
   \<and> (let p2 = run (boot (fresh 2)) [Request, Request]
      in allowed p2 = [0] \<and> waiters (gate p2) = [1] \<and>
         requests_completed (gate p2) + int (length (waiters (gate p2))) + 1 = 2 \<and>
         step p2 Request = p2\<lparr>flows := 3, killed := [2]\<rparr>)"
  by (simp add: eval_defs)

theorem request_while_in_flight_witness:
  "(let p1 = run (boot (fresh 2)) [Request]
    in requests_completed (gate p1) < requests_allowed (gate p1) \<and> in_flight (gate p1) \<and>
       step p1 Request = p1\<lparr>gate := (gate p1)\<lparr>waiters := [1]\<rparr>, flows := 2, stalled := [1]\<rparr>)"
  using request_while_in_flight [of "run (boot (fresh 2)) [Request]"]
  by (simp add: eval_defs)

text \<open>
  C5. When the loop resumes a waiter whose event has been set, the waiter is killed
  and not allowed if \<open>requests_completed\<close> has reached the limit by then (the object
  is left as it is); otherwise it sets \<open>in_flight\<close> and is allowed.
\<close>

theorem wakeup_rechecks_limit:
  "ready p = f # fs \<Longrightarrow>
     (if requests_completed (gate p) \<ge> requests_allowed (gate p)
      then step p Wakeup = p\<lparr>ready := fs, resumed := resumed p @ [f], killed := killed p @ [f]\<rparr>
      else step p Wakeup =
             p\<lparr>gate := (gate p)\<lparr>in_flight := True\<rparr>, ready := fs,
               resumed := resumed p @ [f], allowed := allowed p @ [f]\<rparr>)"
  by (simp add: gate_defs)

theorem wakeup_rechecks_limit_witness:
  "(let p = run (boot (fresh 3)) [Request, Request, Response 0]
    in ready p = [1] \<and> requests_completed (gate p) = 1 \<and>
       step p Wakeup = p\<lparr>gate := (gate p)\<lparr>in_flight := True\<rparr>, ready := [],
                          resumed := [1], allowed := [0, 1]\<rparr>)"
  using wakeup_rechecks_limit [of "run (boot (fresh 3)) [Request, Request, Response 0]" 1 "[]"]
  by (simp add: eval_defs)

text \<open>
  C10. An arrival is killed inside \<^verbatim>\<open>request\<close> before any suspension exactly when
  the limit is already reached, or a flow is in flight and the projected count
  reaches the limit; on both paths the object is returned unchanged in all four
  fields, and the proxy's gate after the step is the gate before it.
\<close>

theorem killed_on_arrival_unchanged:
  "((\<exists>r. fst (request self f) = Killed r) \<longleftrightarrow>
      (requests_completed self \<ge> requests_allowed self \<or>
       (in_flight self \<and>
        requests_completed self + int (length (waiters self)) + 1 \<ge> requests_allowed self)))
   \<and> ((\<exists>r. fst (request self f) = Killed r) \<longrightarrow> snd (request self f) = self)
   \<and> (killed (step p Request) = killed p @ [flows p] \<longrightarrow> gate (step p Request) = gate p)"
  by (auto simp: gate_defs split: if_splits list.splits)

theorem killed_on_arrival_unchanged_witness:
  "(let g = \<lparr>requests_allowed = 2, requests_completed = 0, in_flight = True, waiters = [1]\<rparr>
    in fst (request g 2) = Killed WouldExceedLimit \<and> snd (request g 2) = g)
   \<and> fst (request (fresh 0) 0) = Killed LimitReached \<and> snd (request (fresh 0) 0) = fresh 0"
  using killed_on_arrival_unchanged
          [of "\<lparr>requests_allowed = 2, requests_completed = 0, in_flight = True, waiters = [1]\<rparr>" 2
              "boot (fresh 0)"]
        killed_on_arrival_unchanged [of "fresh 0" 0 "boot (fresh 0)"]
  by (simp add: eval_defs)

subsection \<open>Construction and the caller's contract\<close>

text \<open>
  C8, as stated, fails: with \<^verbatim>\<open>LIMIT_REQUESTS=-1\<close> construction succeeds and the
  object holds the limit -1.
\<close>

theorem negative_limit_constructed:
  "LimitTransfer_init [''LIMIT_REQUESTS'' \<mapsto> ''-1''] =
     Inr \<lparr>requests_allowed = - 1, requests_completed = 0, in_flight = False, waiters = []\<rparr>"
  by (simp add: LimitTransfer_init_def fresh_def py_int_def py_strip_def py_isspace_def
        py_isdigit_def digit_value_def)

text \<open>
  C8, amended. Construction does not look at the sign of the limit: whenever the
  text of \<^verbatim>\<open>LIMIT_REQUESTS\<close> converts to a negative integer, construction succeeds
  and yields an object with that negative limit, no completed request, nothing in
  flight and no waiter.
\<close>

theorem init_accepts_negative_limit:
  "environ ''LIMIT_REQUESTS'' = Some txt \<Longrightarrow> py_int txt = Inr n \<Longrightarrow> n < 0 \<Longrightarrow>
     LimitTransfer_init environ =
       Inr \<lparr>requests_allowed = n, requests_completed = 0, in_flight = False, waiters = []\<rparr>"
  by (simp add: LimitTransfer_init_def fresh_def)

theorem init_accepts_negative_limit_witness:
  "py_int '' -1_0 '' = Inr (- 10) \<and>
   LimitTransfer_init [''LIMIT_REQUESTS'' \<mapsto> '' -1_0 ''] =
     Inr \<lparr>requests_allowed = - 10, requests_completed = 0, in_flight = False, waiters = []\<rparr>"
proof -
  have conv: "py_int '' -1_0 '' = Inr (- 10)"
    by (simp add: py_int_def py_strip_def py_isspace_def py_isdigit_def digit_value_def)
  show ?thesis
    using init_accepts_negative_limit [of "[''LIMIT_REQUESTS'' \<mapsto> '' -1_0 '']" "'' -1_0 ''" "- 10"] conv
    by simp
qed

text \<open>
  C9, as stated, fails: \<^verbatim>\<open>response\<close> called on a new gate for flow 0, which never
  arrived, counts one completed request; called a second time for a flow that was
  allowed and has completed, it counts again.
\<close>

theorem response_counts_unknown_and_repeated:
  "\<not> permitted (boot (fresh 2)) (Response 0) \<and>
   requests_completed (gate (step (boot (fresh 2)) (Response 0))) = 1 \<and>
   \<not> permitted (run (boot (fresh 2)) [Request, Response 0]) (Response 0) \<and>
   requests_completed (gate (run (boot (fresh 2)) [Request, Response 0, Response 0])) = 2"
  by (simp add: eval_defs)

text \<open>
  C9, amended. \<^verbatim>\<open>response\<close> makes no check of the flow it is called for: called for
  a flow that was never allowed, or again for a flow it has already been called for,
  it adds one to \<open>requests_completed\<close> and clears \<open>in_flight\<close> as for any other
  flow, and raises nothing.
\<close>

theorem response_unchecked:
  "\<not> permitted p (Response f) \<Longrightarrow>
     gate (step p (Response f)) = snd (response (gate p)) \<and>
     requests_completed (gate (step p (Response f))) = requests_completed (gate p) + 1 \<and>
     \<not> in_flight (gate (step p (Response f))) \<and>
     responded (step p (Response f)) = responded p @ [f]"
  by (simp add: gate_defs split: list.splits option.splits)

theorem response_unchecked_witness:
  "\<not> permitted (boot (fresh 0)) (Response 7) \<and>
   requests_completed (gate (step (boot (fresh 0)) (Response 7))) = 1 \<and>
   responded (step (boot (fresh 0)) (Response 7)) = [7]"
  using response_unchecked [of "boot (fresh 0)" 7]
  by (simp add: eval_defs)

subsection \<open>The late wake-up\<close>

text \<open>
  C1 at the schedule \<open>late_wakeup\<close>, which keeps the caller's contract: with limit
  2 the three flows 0, 2 and 1 are allowed.
\<close>

theorem late_wakeup_allows_three:
  "contract (boot (fresh 2)) late_wakeup \<and>
   allowed (run (boot (fresh 2)) late_wakeup) = [0, 2, 1] \<and>
   killed (run (boot (fresh 2)) late_wakeup) = []"
  by (simp add: eval_defs)

text \<open>
  C2 at the first five steps of that schedule: flows 2 and 1 have both been
  allowed and neither has completed.
\<close>

theorem late_wakeup_two_in_flight:
  "contract (boot (fresh 2)) [Request, Request, Response 0, Request, Wakeup] \<and>
   outstanding (run (boot (fresh 2)) [Request, Request, Response 0, Request, Wakeup]) = [2, 1]"
  by (simp add: eval_defs)

text \<open>
  C3 at the same schedule: the gate ends with three completed requests against a
  limit of two.
\<close>

theorem late_wakeup_completes_three:
  "contract (boot (fresh 2)) late_wakeup \<and>
   requests_allowed (gate (run (boot (fresh 2)) late_wakeup)) = 2 \<and>
   requests_completed (gate (run (boot (fresh 2)) late_wakeup)) = 3"
  by (simp add: eval_defs)

text \<open>
  The late wake-up is the only way past the limit. Along a prompt schedule that
  keeps the contract, at most one flow is between admission and completion, and
  neither the flows allowed nor the requests completed outnumber the limit.
\<close>

lemma serial_boot: "serial (boot (fresh n))"
  by (simp add: serial_def boot_def fresh_def outstanding_def)

lemma serialD:
  assumes "serial p"
  shows "length (ready p) \<le> 1"
    and "ready p = [] \<or> \<not> in_flight (gate p)"
    and "\<not> in_flight (gate p) \<or> requests_completed (gate p) < requests_allowed (gate p)"
    and "requests_completed (gate p) = 0 \<or> requests_completed (gate p) \<le> requests_allowed (gate p)"
    and "set (responded p) \<subseteq> set (allowed p)"
    and "length (outstanding p) = (if in_flight (gate p) then 1 else 0)"
    and "int (length (allowed p)) = requests_completed (gate p) + int (length (outstanding p))"
  using assms unfolding serial_def by simp_all

lemma serial_step_Request:
  assumes "serial p" and "tidy p" and "ready p = []"
  shows "serial (step p Request)"
proof -
  note s = serialD [OF assms(1)] and t = tidyD [OF assms(2)]
  have new: "flows p \<notin> set (responded p)" using s(5) t(4) [of "flows p"] by auto
  show ?thesis
  proof (cases rule: step_Request_cases [of p])
    case kill
    show ?thesis unfolding kill(1) using s by (simp add: serial_def outstanding_def)
  next
    case stall
    show ?thesis unfolding stall(1) using s stall(2) by (simp add: serial_def outstanding_def)
  next
    case allow
    show ?thesis unfolding allow(1) using s allow(2,3) new assms(3)
      by (auto simp: serial_def outstanding_def)
  qed
qed

lemma serial_step_Wakeup:
  assumes "serial p" and "tidy p"
  shows "serial (step p Wakeup)"
proof -
  note s = serialD [OF assms(1)] and t = tidyD [OF assms(2)]
  show ?thesis
  proof (cases rule: step_Wakeup_cases [of p])
    case idle
    then show ?thesis using assms(1) by simp
  next
    case (kill f fs)
    then have fs: "fs = []" using s(1) by simp
    show ?thesis unfolding kill(3) using s fs by (simp add: serial_def outstanding_def)
  next
    case (allow f fs)
    then have fs: "fs = []" using s(1) by simp
    have nf: "\<not> in_flight (gate p)" using s(2) allow(1) by simp
    have "f \<in> set (stalled p)" using t(1,2) allow(1) by simp
    moreover have "f \<notin> set (resumed p)" using t(1,2,3) allow(1) by auto
    ultimately have "f \<notin> set (allowed p)" using t(5) [of f] by blast
    then have new: "f \<notin> set (responded p)" using s(5) by auto
    show ?thesis unfolding allow(3) using s fs nf new allow(2)
      by (auto simp: serial_def outstanding_def)
  qed
qed

lemma serial_step_Response:
  assumes "serial p" and "ready p = []" and "permitted p (Response f)"
  shows "serial (step p (Response f))"
proof -
  note s = serialD [OF assms(1)]
  have mem: "f \<in> set (outstanding p)" using assms(3) by (simp add: outstanding_def)
  then have "outstanding p \<noteq> []" by auto
  then have fl: "in_flight (gate p)" and one: "length (outstanding p) = 1"
    using s(6) by (auto split: if_splits)
  then have only: "outstanding p = [f]" using mem by (cases "outstanding p") auto
  have lt: "requests_completed (gate p) < requests_allowed (gate p)" using s(3) fl by simp
  have gone: "filter (\<lambda>x. x \<noteq> f \<and> x \<notin> set (responded p)) (allowed p) = []"
  proof -
    have "filter (\<lambda>x. x \<noteq> f \<and> x \<notin> set (responded p)) (allowed p)
            = filter (\<lambda>x. x \<noteq> f) (outstanding p)"
      by (simp add: outstanding_def conj_commute)
    then show ?thesis using only by simp
  qed
  have sub: "set (responded p) \<subseteq> set (allowed p)" "f \<in> set (allowed p)"
    using s(5) assms(3) by simp_all
  have len: "int (length (allowed p)) = requests_completed (gate p) + 1"
    using s(7) one by simp
  show ?thesis
  proof (cases rule: step_Response_cases [of p f])
    case (signal w ws)
    show ?thesis unfolding signal(3) using assms(2) lt gone sub len
      by (simp add: serial_def outstanding_def)
  next
    case quiet
    show ?thesis unfolding quiet(2) using assms(2) lt gone sub len
      by (simp add: serial_def outstanding_def)
  qed
qed

lemma serial_step:
  assumes "serial p" and "tidy p" and "ready p = [] \<or> a = Wakeup" and "permitted p a"
  shows "serial (step p a)"
proof (cases a)
  case Request
  then show ?thesis using assms serial_step_Request by simp
next
  case (Response f)
  then show ?thesis using assms serial_step_Response by simp
next
  case Wakeup
  then show ?thesis using assms serial_step_Wakeup by simp
qed

lemma serial_run:
  "serial p \<Longrightarrow> tidy p \<Longrightarrow> prompt p as \<Longrightarrow> contract p as \<Longrightarrow> serial (run p as)"
proof (induction as arbitrary: p)
  case Nil
  then show ?case by (simp add: run_def)
next
  case (Cons a as)
  have "serial (step p a)" using Cons.prems by (intro serial_step) simp_all
  moreover have "tidy (step p a)" using Cons.prems(2) by (rule tidy_step)
  moreover have "run p (a # as) = run (step p a) as" by (simp add: run_def)
  ultimately show ?case using Cons.IH [of "step p a"] Cons.prems(3,4) by simp
qed

lemma prompt_wakeup_serialized:
  assumes "prompt (boot (fresh n)) as" and "contract (boot (fresh n)) as"
  shows "length (outstanding (run (boot (fresh n)) as)) \<le> 1"
    and "int (length (allowed (run (boot (fresh n)) as))) \<le> max 0 n"
    and "requests_completed (gate (run (boot (fresh n)) as)) \<le> max 0 n"
proof -
  let ?p = "run (boot (fresh n)) as"
  have "serial ?p" using serial_run [OF serial_boot tidy_boot assms] .
  note s = serialD [OF this]
  have n: "requests_allowed (gate ?p) = n" by (simp add: limit_constant_run boot_def fresh_def)
  show "length (outstanding ?p) \<le> 1" using s(6) by (simp split: if_splits)
  show "requests_completed (gate ?p) \<le> max 0 n" using s(4) n by auto
  show "int (length (allowed ?p)) \<le> max 0 n" using s(3,4,6,7) n by (auto split: if_splits)
qed

subsection \<open>Order of service\<close>

text \<open>
  C7. In every state reached from a new gate, the flows that stalled are, in the
  order of their arrival, the flows signalled so far followed by those still queued,
  and the flows signalled are those resumed so far followed by those the loop has
  yet to resume. So if \<open>a\<close> was queued before \<open>b\<close> and \<open>b\<close> has been signalled
  (resumed), then \<open>a\<close> was signalled (resumed) before \<open>b\<close>.
\<close>

theorem waiters_signalled_in_arrival_order:
  "(let p = run (boot (fresh n)) as
    in stalled p = signalled p @ waiters (gate p) \<and>
       signalled p = resumed p @ ready p \<and>
       (\<forall>a b. precedes a b (stalled p) \<and> b \<in> set (signalled p) \<longrightarrow> precedes a b (signalled p)) \<and>
       (\<forall>a b. precedes a b (stalled p) \<and> b \<in> set (resumed p) \<longrightarrow> precedes a b (resumed p)))"
proof -
  define p where "p = run (boot (fresh n)) as"
  have "tidy p" unfolding p_def by (rule tidy_run) (rule tidy_boot)
  note t = tidyD [OF this]
  have d1: "distinct (signalled p @ waiters (gate p))" using t(1,3) by simp
  have d2: "distinct (resumed p @ ready p)" using d1 t(2) by auto
  have s: "\<And>a b. precedes a b (stalled p) \<Longrightarrow> b \<in> set (signalled p) \<Longrightarrow> precedes a b (signalled p)"
    using precedes_prefix [OF d1] t(1) by simp
  have r: "\<And>a b. precedes a b (stalled p) \<Longrightarrow> b \<in> set (resumed p) \<Longrightarrow> precedes a b (resumed p)"
  proof -
    fix a b assume ab: "precedes a b (stalled p)" "b \<in> set (resumed p)"
    then have "b \<in> set (signalled p)" using t(2) by simp
    then have "precedes a b (resumed p @ ready p)" using s ab(1) t(2) by simp
    then show "precedes a b (resumed p)" using precedes_prefix [OF d2] ab(2) by blast
  qed
  show ?thesis
    unfolding Let_def p_def [symmetric] using t(1,2) s r by blast
qed

theorem waiters_signalled_in_arrival_order_witness:
  "(let p = run (boot (fresh 4)) [Request, Request, Request, Response 0, Wakeup, Response 1]
    in stalled p = [1, 2] \<and> signalled p = [1, 2] \<and> waiters (gate p) = [] \<and>
       resumed p = [1] \<and> ready p = [2] \<and> precedes 1 2 (stalled p) \<and> precedes 1 2 (signalled p))"
  using waiters_signalled_in_arrival_order
          [of 4 "[Request, Request, Request, Response 0, Wakeup, Response 1]"]
  by (simp add: eval_defs precedes_def)

subsection \<open>Completion\<close>

text \<open>
  C6. Every call of \<^verbatim>\<open>response\<close> adds one to \<open>requests_completed\<close>, clears
  \<open>in_flight\<close>, and then sets the event at the head of \<open>waiters\<close> (removing it
  from the list and scheduling its task) exactly when the list is not empty and the
  new count is below the limit. Hence from any state in which the count has reached
  the limit, whatever happens next, no event is set any more, the queue stays as it
  is, and the flows still in it are never resumed, allowed or killed.
\<close>

theorem response_signals_head_below_limit:
  "(requests_completed (gate (step p (Response f))) = requests_completed (gate p) + 1 \<and>
    \<not> in_flight (gate (step p (Response f))) \<and>
    (if waiters (gate p) \<noteq> [] \<and> requests_completed (gate p) + 1 < requests_allowed (gate p)
     then signalled (step p (Response f)) = signalled p @ [hd (waiters (gate p))] \<and>
          ready (step p (Response f)) = ready p @ [hd (waiters (gate p))] \<and>
          waiters (gate (step p (Response f))) = tl (waiters (gate p))
     else signalled (step p (Response f)) = signalled p \<and>
          ready (step p (Response f)) = ready p \<and>
          waiters (gate (step p (Response f))) = waiters (gate p)))
   \<and> (tidy q \<and> requests_allowed (gate q) \<le> requests_completed (gate q) \<longrightarrow>
        signalled (run q as) = signalled q \<and>
        waiters (gate (run q as)) = waiters (gate q) \<and>
        (\<forall>w \<in> set (waiters (gate q)).
           w \<notin> set (resumed (run q as)) \<and> w \<notin> set (allowed (run q as)) \<and>
           w \<notin> set (killed (run q as))))"
proof (intro conjI impI)
  show "requests_completed (gate (step p (Response f))) = requests_completed (gate p) + 1"
    by (cases rule: step_Response_cases [of p f]) simp_all
  show "\<not> in_flight (gate (step p (Response f)))"
    by (cases rule: step_Response_cases [of p f]) simp_all
  show "if waiters (gate p) \<noteq> [] \<and> requests_completed (gate p) + 1 < requests_allowed (gate p)
     then signalled (step p (Response f)) = signalled p @ [hd (waiters (gate p))] \<and>
          ready (step p (Response f)) = ready p @ [hd (waiters (gate p))] \<and>
          waiters (gate (step p (Response f))) = tl (waiters (gate p))
     else signalled (step p (Response f)) = signalled p \<and>
          ready (step p (Response f)) = ready p \<and>
          waiters (gate (step p (Response f))) = waiters (gate p)"
    by (cases rule: step_Response_cases [of p f]) auto
next
  assume h: "tidy q \<and> requests_allowed (gate q) \<le> requests_completed (gate q)"
  then have same: "signalled (run q as) = signalled q" "waiters (gate (run q as)) = waiters (gate q)"
    using at_limit_run [of q as] by simp_all
  show "signalled (run q as) = signalled q" by (rule same)
  show "waiters (gate (run q as)) = waiters (gate q)" by (rule same)
  have "tidy (run q as)" using h by (simp add: tidy_run)
  then show "\<forall>w \<in> set (waiters (gate q)).
           w \<notin> set (resumed (run q as)) \<and> w \<notin> set (allowed (run q as)) \<and>
           w \<notin> set (killed (run q as))"
    using waiting_unsettled [of "run q as"] same(2) by simp
qed


theorem response_signals_head_below_limit_witness:
  "tidy stranded \<and> requests_allowed (gate stranded) \<le> requests_completed (gate stranded) \<and>
   signalled (run stranded [Request, Response 0, Wakeup]) = [] \<and>
   waiters (gate (run stranded [Request, Response 0, Wakeup])) = [1] \<and>
   1 \<notin> set (allowed (run stranded [Request, Response 0, Wakeup])) \<and>
   1 \<notin> set (killed (run stranded [Request, Response 0, Wakeup])) \<and>
   signalled (step (run (boot (fresh 3)) [Request, Request]) (Response 0)) = [1]"
proof -
  have t: "tidy stranded" by (simp add: tidy_def stranded_def)
  have l: "requests_allowed (gate stranded) \<le> requests_completed (gate stranded)"
    by (simp add: stranded_def)
  have w: "waiters (gate stranded) = [1]" "signalled stranded = []" by (simp_all add: stranded_def)
  have s: "waiters (gate (run (boot (fresh 3)) [Request, Request])) = [1]"
    "requests_completed (gate (run (boot (fresh 3)) [Request, Request])) = 0"
    "requests_allowed (gate (run (boot (fresh 3)) [Request, Request])) = 3"
    "signalled (run (boot (fresh 3)) [Request, Request]) = []"
    by (simp_all add: eval_defs)
  show ?thesis
    using response_signals_head_below_limit
            [of "run (boot (fresh 3)) [Request, Request]" 0 stranded "[Request, Response 0, Wakeup]"]
          t l w s
    by simp
qed

end
